theory Spec2Isabelle
  imports Main "HOL-Library.Multiset"
begin

section \<open>JavaScript values and the host promise\<close>

text \<open>
  The repository adds four functions to the host's \<^verbatim>\<open>Promise\<close>: \<^verbatim>\<open>Promise.some\<close>,
  \<^verbatim>\<open>Promise.none\<close>, \<^verbatim>\<open>Promise.try\<close> and \<^verbatim>\<open>Promise.prototype.always\<close>
  (src/PromiseExtension.js; src/unnamed/part_000 is the same code with other parameter
  names). The host promise is not part of the repository, so this section fixes what the
  embedding takes from it.

  Numbers are integers or one of the three special values; fractions are left out.
  The values of \<open>jsval\<close> are plain: none has a \<^verbatim>\<open>then\<close> method. A promise
  settles with a plain value. Promises, and the other objects and functions that have a
  callable \<^verbatim>\<open>then\<close>, are kept apart, in the type \<open>operand\<close>.
\<close>

datatype jsnum = Finite int | PosInfinity | NegInfinity | NaN

datatype jsval =
    JUndefined
  | JNull
  | JBool bool
  | JNum jsnum
  | JStr string
  | JArr "jsval list"
  | JFun nat
  | JError string

text \<open>
  The life of a promise: it never settles, or it settles once, at a time, as fulfilled
  with a value or rejected with a reason.
\<close>

datatype settlement = Fulfilled jsval | Rejected jsval

datatype promise = Never | Settles nat settlement

text \<open>
  The promises that exist when a function of the repository is called are named by
  numbers. What becomes of them is not decided by the repository: it is given by a
  history, the list of their settlements in the order in which they happen. The host
  settles one promise at a time, so the place in the list is the time: the first entry
  happens at time 1, the next at time 2. A promise settles once: its first entry counts,
  and a promise without an entry stays pending for ever. A call made at time \<open>now\<close>
  comes after the first \<open>now\<close> entries: a promise with a time up to \<open>now\<close> is
  already settled at the call, one with a later time is still pending. What the call
  does itself, and what the jobs do that it queues at once, happens at time \<open>now\<close>
  as well: before the next settlement of the history.
\<close>

type_synonym pid = nat

type_synonym history = "(pid \<times> settlement) list"

fun settlement_from :: "nat \<Rightarrow> history \<Rightarrow> pid \<Rightarrow> promise" where
  "settlement_from k [] p = Never"
| "settlement_from k ((q, s) # h) p =
     (if q = p then Settles (Suc k) s else settlement_from (Suc k) h p)"

definition fate :: "history \<Rightarrow> pid \<Rightarrow> promise" where
  "fate h p = settlement_from 0 h p"

text \<open>
  What a caller can pass: a plain value, a promise, or an object or function that is
  not a promise and has a callable \<^verbatim>\<open>then\<close>. Of such a thenable the embedding keeps
  the function it is, if it is one, and the life of a promise that follows it, which is
  what its \<^verbatim>\<open>then\<close> does with the two settling functions the host hands it.
\<close>

datatype operand = Val jsval | Prom pid | Thenable "nat option" promise

text \<open>
  What a call gives back: a value, or the exception it threw. A \<^verbatim>\<open>TypeError\<close> of
  the host is the value \<open>type_error\<close>.
\<close>

datatype 'a completion = Returns 'a | Throws jsval

definition type_error :: jsval where
  "type_error = JError ''TypeError''"

fun instanceof_Promise :: "operand \<Rightarrow> bool" where
  "instanceof_Promise (Prom p) = True"
| "instanceof_Promise (Val v) = False"
| "instanceof_Promise (Thenable c l) = False"

text \<open>
  The two settling functions an executor receives. Their argument \<open>p\<close> is the state
  of the promise under construction; only the first call on a pending promise has an
  effect.
\<close>

definition resolve :: "nat \<Rightarrow> jsval \<Rightarrow> promise \<Rightarrow> promise" where
  "resolve t v p = (case p of Never \<Rightarrow> Settles t (Fulfilled v) | Settles t' s \<Rightarrow> p)"

definition reject :: "nat \<Rightarrow> jsval \<Rightarrow> promise \<Rightarrow> promise" where
  "reject t r p = (case p of Never \<Rightarrow> Settles t (Rejected r) | Settles t' s \<Rightarrow> p)"

text \<open>
  A handler given to \<^verbatim>\<open>then\<close> never runs inside the call of \<^verbatim>\<open>then\<close>. For a
  promise already settled at the call the host queues the job at once; for a pending one
  it queues the job when the promise settles. Jobs run first in, first out. So the jobs
  of the handlers registered at time \<open>now\<close> run in the order of \<open>max now t\<close>, and
  among equal times in the order of registration: that is a stable sort of the
  registrations. The lives come from a history, where two promises never share a time
  (lemma \<open>fate_same_time\<close>): jobs with one time after \<open>now\<close> are those of one
  promise registered more than once, and jobs with the time \<open>now\<close> are those of the
  promises already settled at the call.
\<close>

fun reaction_job :: "nat \<Rightarrow> promise \<Rightarrow> (nat \<times> settlement) list" where
  "reaction_job now Never = []"
| "reaction_job now (Settles t s) = [(max now t, s)]"

definition job_queue :: "nat \<Rightarrow> promise list \<Rightarrow> (nat \<times> settlement) list" where
  "job_queue now ps = sort_key fst (concat (map (reaction_job now) ps))"

section \<open>Promise.some\<close>

text \<open>
  The closure state of one call: the three variables of the source, the promises on
  which \<^verbatim>\<open>then(resolve, rejectLastFailure)\<close> was called (in the order of the calls), and
  the state of the promise that the call returns.
  \<open>rejectionlessPromises\<close> holds the promises that \<^verbatim>\<open>then\<close> returned: both
  handlers return \<^verbatim>\<open>undefined\<close>, so each is fulfilled with it when its source settles.
\<close>

record some_state =
  rejectionlessPromises :: "promise list"
  reasons :: "jsval list"
  rejectionCount :: nat
  registered :: "pid list"
  returned :: promise

definition only_promises_msg :: jsval where
  "only_promises_msg = JStr ''Only Promises can be used with Promise.some()''"

definition then_undefined :: "nat \<Rightarrow> promise \<Rightarrow> promise" where
  "then_undefined now p =
     (case p of Never \<Rightarrow> Never | Settles t s \<Rightarrow> Settles (max now t) (Fulfilled JUndefined))"

text \<open>
  \<^verbatim>\<open>function rejectLastFailure(reason)\<close>; \<open>n\<close> is \<^verbatim>\<open>promises.length\<close>.
\<close>

definition rejectLastFailure :: "nat \<Rightarrow> nat \<Rightarrow> jsval \<Rightarrow> some_state \<Rightarrow> some_state" where
  "rejectLastFailure n t reason st =
     (let st1 = st\<lparr>reasons := reasons st @ [reason]\<rparr>;
          st2 = st1\<lparr>rejectionCount := rejectionCount st1 + 1\<rparr>
      in if rejectionCount st2 = n
         then st2\<lparr>returned := reject t (JArr (reasons st2)) (returned st2)\<rparr>
         else st2)"

text \<open>The body of the \<^verbatim>\<open>for\<close> loop, at index \<open>i\<close>.\<close>

definition some_body :: "history \<Rightarrow> nat \<Rightarrow> operand \<Rightarrow> some_state \<Rightarrow> some_state" where
  "some_body h now x st =
     (case x of
        Prom p \<Rightarrow>
          st\<lparr>rejectionlessPromises :=
               rejectionlessPromises st @ [then_undefined now (fate h p)],
             registered := registered st @ [p]\<rparr>
      | Val v \<Rightarrow> st\<lparr>returned := reject now only_promises_msg (returned st)\<rparr>
      | Thenable c l \<Rightarrow> st\<lparr>returned := reject now only_promises_msg (returned st)\<rparr>)"

text \<open>
  \<^verbatim>\<open>for (var i = promises.length; i--;)\<close>: the test reads \<open>i\<close> and then
  decrements it, so the body sees the indices from \<open>length - 1\<close> down to \<open>0\<close>.
  The first argument of \<open>some_loop\<close> is the value of \<open>i\<close> at the test.
\<close>

fun some_loop ::
  "nat \<Rightarrow> history \<Rightarrow> nat \<Rightarrow> operand list \<Rightarrow> some_state \<Rightarrow> some_state" where
  "some_loop 0 h now promises st = st"
| "some_loop (Suc i) h now promises st =
     some_loop i h now promises (some_body h now (promises ! i) st)"

definition some_init :: some_state where
  "some_init = \<lparr>rejectionlessPromises = [], reasons = [], rejectionCount = 0,
                registered = [], returned = Never\<rparr>"

text \<open>
  The executor, run inside \<^verbatim>\<open>new Promise\<close> at time \<open>now\<close>. The argument is
  \<open>None\<close> for \<^verbatim>\<open>undefined\<close> and \<open>Some xs\<close> for an array. The value of
  \<^verbatim>\<open>Promise.race(rejectionlessPromises)\<close> is dropped by the source, so the call adds
  nothing to the state.
\<close>

definition some_executor :: "history \<Rightarrow> nat \<Rightarrow> operand list option \<Rightarrow> some_state" where
  "some_executor h now promises =
     (case promises of
        None \<Rightarrow> some_init\<lparr>returned := resolve now (JArr []) (returned some_init)\<rparr>
      | Some xs \<Rightarrow>
          if length xs = 0
          then some_init\<lparr>returned := resolve now (JArr []) (returned some_init)\<rparr>
          else some_loop (length xs) h now xs some_init)"

text \<open>
  One job: the handler pair \<^verbatim>\<open>(resolve, rejectLastFailure)\<close> applied to a settlement.
\<close>

fun some_job :: "nat \<Rightarrow> nat \<times> settlement \<Rightarrow> some_state \<Rightarrow> some_state" where
  "some_job n (t, Fulfilled v) st = st\<lparr>returned := resolve t v (returned st)\<rparr>"
| "some_job n (t, Rejected r) st = rejectLastFailure n t r st"

fun some_jobs :: "nat \<Rightarrow> (nat \<times> settlement) list \<Rightarrow> some_state \<Rightarrow> some_state" where
  "some_jobs n [] st = st"
| "some_jobs n (j # js) st = some_jobs n js (some_job n j st)"

definition promises_length :: "operand list option \<Rightarrow> nat" where
  "promises_length promises = (case promises of None \<Rightarrow> 0 | Some xs \<Rightarrow> length xs)"

text \<open>
  \<open>some_run h now promises k\<close> is the closure state after the executor and the first
  \<open>k\<close> jobs; \<open>Promise_some\<close> is the returned promise once every job has run.
\<close>

definition some_run :: "history \<Rightarrow> nat \<Rightarrow> operand list option \<Rightarrow> nat \<Rightarrow> some_state" where
  "some_run h now promises k =
     (let st = some_executor h now promises
      in some_jobs (promises_length promises)
           (take k (job_queue now (map (fate h) (registered st)))) st)"

definition Promise_some :: "history \<Rightarrow> nat \<Rightarrow> operand list option \<Rightarrow> promise" where
  "Promise_some h now promises =
     (let st = some_executor h now promises
      in returned (some_jobs (promises_length promises)
                     (job_queue now (map (fate h) (registered st))) st))"

section \<open>Promise.none\<close>

text \<open>
  \<^verbatim>\<open>Promise.some(promises).then(reject, resolve)\<close> inside \<^verbatim>\<open>new Promise\<close>: the
  handler of the fulfilled side is \<^verbatim>\<open>reject\<close> of the new promise, the handler of the
  rejected side is its \<^verbatim>\<open>resolve\<close>. The job runs at \<open>max now t\<close>.
\<close>

definition Promise_none :: "history \<Rightarrow> nat \<Rightarrow> operand list option \<Rightarrow> promise" where
  "Promise_none h now promises =
     (case Promise_some h now promises of
        Never \<Rightarrow> Never
      | Settles t (Fulfilled v) \<Rightarrow> reject (max now t) v Never
      | Settles t (Rejected r) \<Rightarrow> resolve (max now t) r Never)"

section \<open>Promise.try\<close>

text \<open>
  \<^verbatim>\<open>typeof\<close> yields one of the host's lower-case tags.
\<close>

fun typeof :: "operand \<Rightarrow> string" where
  "typeof (Val JUndefined) = ''undefined''"
| "typeof (Val JNull) = ''object''"
| "typeof (Val (JBool b)) = ''boolean''"
| "typeof (Val (JNum n)) = ''number''"
| "typeof (Val (JStr s)) = ''string''"
| "typeof (Val (JArr xs)) = ''object''"
| "typeof (Val (JFun f)) = ''function''"
| "typeof (Val (JError m)) = ''object''"
| "typeof (Prom p) = ''object''"
| "typeof (Thenable None l) = ''object''"
| "typeof (Thenable (Some f) l) = ''function''"

fun truthy :: "jsval \<Rightarrow> bool" where
  "truthy JUndefined = False"
| "truthy JNull = False"
| "truthy (JBool b) = b"
| "truthy (JNum (Finite n)) = (n \<noteq> 0)"
| "truthy (JNum NaN) = False"
| "truthy (JNum PosInfinity) = True"
| "truthy (JNum NegInfinity) = True"
| "truthy (JStr s) = (s \<noteq> [])"
| "truthy (JArr xs) = True"
| "truthy (JFun f) = True"
| "truthy (JError m) = True"

text \<open>
  A promise that follows another, from time \<open>now\<close> on, settles as the other does, and
  not before \<open>now\<close>.
\<close>

fun follow :: "nat \<Rightarrow> promise \<Rightarrow> promise" where
  "follow now Never = Never"
| "follow now (Settles t s) = Settles (max now t) s"

text \<open>
  \<^verbatim>\<open>Promise.resolve(x)\<close> is \<open>x\<close> itself when \<open>x\<close> is a promise. For a thenable
  it is a new promise that follows \<open>x\<close>: the host calls the \<^verbatim>\<open>then\<close> of \<open>x\<close> in
  a job. For a plain value it is a promise already fulfilled with \<open>x\<close>.
  \<^verbatim>\<open>Promise.race\<close> passes every element of its array through \<^verbatim>\<open>Promise.resolve\<close>,
  registers on each in array order, and settles as the first job says; its argument here
  is the list of the lives after \<^verbatim>\<open>Promise.resolve\<close>.
\<close>

fun Promise_resolve :: "history \<Rightarrow> nat \<Rightarrow> operand \<Rightarrow> promise" where
  "Promise_resolve h now (Val v) = Settles now (Fulfilled v)"
| "Promise_resolve h now (Prom p) = fate h p"
| "Promise_resolve h now (Thenable c l) = follow now l"

definition Promise_race :: "nat \<Rightarrow> promise list \<Rightarrow> promise" where
  "Promise_race now ps =
     (case job_queue now ps of
        [] \<Rightarrow> Never
      | (t, s) # js \<Rightarrow> Settles t s)"

text \<open>
  The parameters as the doc comment types them: \<^verbatim>\<open>time\<close> is absent, a Number or an
  Array of Numbers, \<^verbatim>\<open>attempts\<close> is absent or an integer. The closure state holds the
  variables that change; \<^verbatim>\<open>time\<close> is among them because \<^verbatim>\<open>time.pop()\<close> changes
  the caller's array. \<^verbatim>\<open>times\<close> is never changed after \<^verbatim>\<open>[].concat(time)\<close>, and
  only its length is read.
\<close>

datatype timespec = NoTime | OneTime jsnum | TimeArray "jsnum list"

record try_state =
  attemptNum :: nat
  time :: timespec
  timeToWait :: "jsnum option"
  try_reasons :: "jsval list"

fun concat_time :: "timespec \<Rightarrow> jsnum option list" where
  "concat_time NoTime = [None]"
| "concat_time (OneTime n) = [Some n]"
| "concat_time (TimeArray xs) = map Some xs"

fun array_pop :: "jsnum list \<Rightarrow> jsnum option \<times> jsnum list" where
  "array_pop [] = (None, [])"
| "array_pop (x # xs) = (Some (last (x # xs)), butlast (x # xs))"

fun number_value :: "jsnum option \<Rightarrow> jsval" where
  "number_value None = JUndefined"
| "number_value (Some n) = JNum n"

fun isFinite :: "jsnum option \<Rightarrow> bool" where
  "isFinite (Some (Finite n)) = True"
| "isFinite (Some PosInfinity) = False"
| "isFinite (Some NegInfinity) = False"
| "isFinite (Some NaN) = False"
| "isFinite None = False"

text \<open>A timer set at \<open>now\<close> fires later, and the later the longer its delay.\<close>

fun setTimeout_time :: "nat \<Rightarrow> jsnum option \<Rightarrow> nat" where
  "setTimeout_time now (Some (Finite n)) = now + 1 + nat n"
| "setTimeout_time now d = now + 1"

text \<open>
  \<^verbatim>\<open>function timeoutPromiseFactory()\<close>. \<^verbatim>\<open>time.pop()\<close> exists only on an array: on
  a Number and on \<^verbatim>\<open>undefined\<close> the call throws. \<^verbatim>\<open>setTimeout(reject, timeToWait)\<close>
  calls \<^verbatim>\<open>reject\<close> without an argument. \<^verbatim>\<open>new Promise()\<close> has no executor, and
  the host throws on it.
\<close>

definition timeoutPromiseFactory ::
  "nat \<Rightarrow> nat \<Rightarrow> try_state \<Rightarrow> promise completion \<times> try_state" where
  "timeoutPromiseFactory times_length now st =
     (case (if times_length \<noteq> 0
            then (case time st of
                    TimeArray xs \<Rightarrow>
                      Returns (st\<lparr>timeToWait := fst (array_pop xs),
                                  time := TimeArray (snd (array_pop xs))\<rparr>)
                  | OneTime n \<Rightarrow> Throws type_error
                  | NoTime \<Rightarrow> Throws type_error)
            else Returns st) of
        Throws e \<Rightarrow> (Throws e, st)
      | Returns st1 \<Rightarrow>
          if typeof (Val (number_value (timeToWait st1))) = ''Number''
             \<and> \<not> truthy (number_value (timeToWait st1)) \<and> isFinite (timeToWait st1)
          then (Returns (Settles (setTimeout_time now (timeToWait st1)) (Rejected JUndefined)),
                st1)
          else (Throws type_error, st1))"

text \<open>
  \<^verbatim>\<open>function attempt()\<close>. The array literal calls \<^verbatim>\<open>timeoutPromiseFactory()\<close>
  before the race starts, so its exception leaves \<^verbatim>\<open>attempt\<close>. The race holds
  \<^verbatim>\<open>fn\<close> itself: the source has no call of \<^verbatim>\<open>fn\<close>. The handler of
  \<^verbatim>\<open>catch\<close> runs when the race is rejected, at time \<open>t\<close>; it calls
  \<^verbatim>\<open>attempt()\<close> without returning its promise, so after a retry the handler returns
  \<^verbatim>\<open>undefined\<close>, or rethrows what the inner call threw.
\<close>

function attempt ::
  "history \<Rightarrow> operand \<Rightarrow> int \<Rightarrow> nat \<Rightarrow> nat \<Rightarrow> try_state
     \<Rightarrow> promise completion \<times> try_state" where
  "attempt h fn maxAttempts times_length now st =
     (case timeoutPromiseFactory times_length now st of
        (Throws e, st1) \<Rightarrow> (Throws e, st1)
      | (Returns timeoutPromise, st1) \<Rightarrow>
          (case Promise_race now [Promise_resolve h now fn, timeoutPromise] of
             Never \<Rightarrow> (Returns Never, st1)
           | Settles t (Fulfilled v) \<Rightarrow> (Returns (Settles t (Fulfilled v)), st1)
           | Settles t (Rejected reason) \<Rightarrow>
               (let st2 = st1\<lparr>try_reasons := try_reasons st1 @ [reason]\<rparr>;
                    st3 = st2\<lparr>attemptNum := attemptNum st2 + 1\<rparr>
                in if int (attemptNum st2) < maxAttempts
                   then (case attempt h fn maxAttempts times_length t st3 of
                           (Throws e, st4) \<Rightarrow> (Returns (Settles t (Rejected e)), st4)
                         | (Returns p, st4) \<Rightarrow>
                             (Returns (Settles t (Fulfilled JUndefined)), st4))
                   else (Returns (Settles t (Rejected (JArr (try_reasons st3)))), st3))))"
  by pat_completeness auto
termination
proof (relation "measure (\<lambda>(h, fn, maxAttempts, times_length, now, st).
                   nat (maxAttempts - int (attemptNum st)))")
  show "wf (measure (\<lambda>(h, fn, maxAttempts, times_length, now, st).
              nat (maxAttempts - int (attemptNum st))))"
    by simp
next
  fix h :: history and fn :: operand and maxAttempts :: int and times_length now :: nat
    and st st1 st2 st3 :: try_state
    and x :: "promise completion" and timeoutPromise t s reason
  assume f: "(x, st1) = timeoutPromiseFactory times_length now st"
    and st2: "st2 = st1\<lparr>try_reasons := try_reasons st1 @ [reason]\<rparr>"
    and st3: "st3 = st2\<lparr>attemptNum := attemptNum st2 + 1\<rparr>"
    and lt: "int (attemptNum st2) < maxAttempts"
  have "attemptNum st1 = attemptNum st"
    using f by (auto simp: timeoutPromiseFactory_def split: if_splits timespec.splits)
  then show "((h, fn, maxAttempts, times_length, t, st3),
               h, fn, maxAttempts, times_length, now, st)
      \<in> measure (\<lambda>(h, fn, maxAttempts, times_length, now, st).
            nat (maxAttempts - int (attemptNum st)))"
    using st2 st3 lt by simp
qed

text \<open>
  \<^verbatim>\<open>Promise.try = function(fn, time, attempts)\<close>, called at time \<open>now\<close>. The result
  is what the call returns or throws, with the closure state it leaves.
\<close>

definition Promise_try ::
  "history \<Rightarrow> nat \<Rightarrow> operand \<Rightarrow> timespec \<Rightarrow> int option
     \<Rightarrow> promise completion \<times> try_state" where
  "Promise_try h now fn time0 attempts =
     (let st = \<lparr>attemptNum = 0, time = time0, timeToWait = None, try_reasons = []\<rparr>;
          maxAttempts = (case attempts of None \<Rightarrow> 0 | Some a \<Rightarrow> if a \<noteq> 0 then a else 0);
          times = concat_time time0
      in if typeof fn \<noteq> ''Function'' then (Returns (Promise_resolve h now fn), st)
         else attempt h fn maxAttempts (length times) now st)"

section \<open>Promise.prototype.always\<close>


fun payload :: "settlement \<Rightarrow> jsval" where
  "payload (Fulfilled v) = v"
| "payload (Rejected r) = r"







section \<open>Notions used in the statements\<close>

text \<open>
  The promise that an element of the input array is (none for a plain value or a
  thenable), whether a settlement is a rejection, and a failure: which promise fails, at
  what time, with what reason.
\<close>

fun prom_of :: "operand \<Rightarrow> pid list" where
  "prom_of (Prom p) = [p]"
| "prom_of (Val v) = []"
| "prom_of (Thenable c l) = []"

fun is_rejected :: "settlement \<Rightarrow> bool" where
  "is_rejected (Rejected r) = True"
| "is_rejected (Fulfilled v) = False"

datatype failure = Failure (who: pid) (failed_at: nat) (why: jsval)

text \<open>The job that a failure puts into the queue of a call made at \<open>now\<close>.\<close>

definition failure_job :: "nat \<Rightarrow> failure \<Rightarrow> nat \<times> settlement" where
  "failure_job now f = (max now (failed_at f), Rejected (why f))"




section \<open>The settling functions and the executor of Promise.some\<close>

lemma some_loop_foldr:
  "i \<le> length xs \<Longrightarrow> some_loop i h now xs st = foldr (some_body h now) (take i xs) st"
proof (induction i arbitrary: st)
  case 0
  then show ?case by simp
next
  case (Suc i)
  then have "take (Suc i) xs = take i xs @ [xs ! i]"
    by (simp add: take_Suc_conv_app_nth)
  with Suc show ?case by simp
qed

lemma resolve_settled [simp]: "resolve t v (Settles t' s) = Settles t' s"
  by (simp add: resolve_def)

lemma reject_settled [simp]: "reject t v (Settles t' s) = Settles t' s"
  by (simp add: reject_def)

lemma resolve_Never [simp]: "resolve t v Never = Settles t (Fulfilled v)"
  by (simp add: resolve_def)

lemma reject_Never [simp]: "reject t v Never = Settles t (Rejected v)"
  by (simp add: reject_def)

lemma some_body_fields [simp]:
  "reasons (some_body h now x st) = reasons st"
  "rejectionCount (some_body h now x st) = rejectionCount st"
  "registered (some_body h now x st) = registered st @ prom_of x"
  by (cases x; simp add: some_body_def)+

lemma some_body_returned:
  "returned (some_body h now x st) =
     (if instanceof_Promise x then returned st else reject now only_promises_msg (returned st))"
  by (cases x) (simp_all add: some_body_def)

lemma foldr_some_body_fields [simp]:
  "reasons (foldr (some_body h now) xs st) = reasons st"
  "rejectionCount (foldr (some_body h now) xs st) = rejectionCount st"
  "registered (foldr (some_body h now) xs st) = registered st @ concat (map prom_of (rev xs))"
  by (induction xs arbitrary: st) simp_all

lemma foldr_some_body_returned:
  "returned st = Never \<Longrightarrow>
   returned (foldr (some_body h now) xs st) =
     (if \<forall>x\<in>set xs. instanceof_Promise x then Never
      else Settles now (Rejected only_promises_msg))"
  by (induction xs) (auto simp: some_body_returned)

lemma some_job_settled:
  "returned st = Settles t s \<Longrightarrow> returned (some_job n j st) = Settles t s"
  by (cases j; cases "snd j") (auto simp: rejectLastFailure_def Let_def)

lemma some_jobs_settled:
  "returned st = Settles t s \<Longrightarrow> returned (some_jobs n js st) = Settles t s"
  by (induction js arbitrary: st) (simp_all add: some_job_settled)

lemma some_jobs_append:
  "some_jobs n (js @ ks) st = some_jobs n ks (some_jobs n js st)"
  by (induction js arbitrary: st) simp_all

lemma some_jobs_rejections:
  "\<forall>j\<in>set js. is_rejected (snd j) \<Longrightarrow> returned st = Never \<Longrightarrow>
   rejectionCount st + length js < n \<Longrightarrow>
   returned (some_jobs n js st) = Never
   \<and> rejectionCount (some_jobs n js st) = rejectionCount st + length js
   \<and> reasons (some_jobs n js st) = reasons st @ map (payload \<circ> snd) js"
proof (induction js arbitrary: st)
  case Nil
  then show ?case by simp
next
  case (Cons j js)
  obtain t r where j: "j = (t, Rejected r)"
    using Cons.prems(1) by (cases j; cases "snd j") auto
  let ?st = "some_job n j st"
  have "returned ?st = Never" "rejectionCount ?st = rejectionCount st + 1"
    "reasons ?st = reasons st @ [r]"
    using Cons.prems by (simp_all add: j rejectLastFailure_def Let_def)
  with Cons.IH [of ?st] Cons.prems show ?case
    by (simp add: j)
qed

lemma some_jobs_last_rejection:
  "\<forall>j\<in>set js. is_rejected (snd j) \<Longrightarrow> returned st = Never \<Longrightarrow> js \<noteq> [] \<Longrightarrow>
   rejectionCount st + length js = n \<Longrightarrow>
   returned (some_jobs n js st) =
     Settles (fst (last js)) (Rejected (JArr (reasons st @ map (payload \<circ> snd) js)))
   \<and> rejectionCount (some_jobs n js st) = n"
proof -
  assume a: "\<forall>j\<in>set js. is_rejected (snd j)" "returned st = Never" "js \<noteq> []"
    "rejectionCount st + length js = n"
  obtain t r where l: "last js = (t, Rejected r)"
    using a(1,3) last_in_set [of js] by (cases "last js"; cases "snd (last js)") auto
  have js: "js = butlast js @ [(t, Rejected r)]"
    using a(3) l by (metis append_butlast_last_id)
  let ?st = "some_jobs n (butlast js) st"
  have b: "\<forall>j\<in>set (butlast js). is_rejected (snd j)"
    using a(1) by (meson in_set_butlastD)
  have c: "rejectionCount st + length (butlast js) < n"
    using a(3,4) by (cases js) auto
  note pre = some_jobs_rejections [OF b a(2) c]
  have "some_jobs n js st = some_job n (t, Rejected r) ?st"
    by (subst js) (simp add: some_jobs_append)
  moreover have "Suc (rejectionCount st + length (butlast js)) = n"
    using a(3,4) by (cases js) auto
  moreover have "map (payload \<circ> snd) js = map (payload \<circ> snd) (butlast js) @ [r]"
    by (subst js) simp
  ultimately show ?thesis
    using pre l by (simp add: rejectLastFailure_def Let_def)
qed

lemma some_jobs_first_fulfilled:
  "\<forall>j\<in>set js. is_rejected (snd j) \<Longrightarrow> returned st = Never \<Longrightarrow>
   rejectionCount st + length js < n \<Longrightarrow>
   returned (some_jobs n (js @ (t, Fulfilled v) # ks) st) = Settles t (Fulfilled v)"
  using some_jobs_rejections [of js st n]
  by (simp add: some_jobs_append some_jobs_settled)

subsection \<open>The job queue\<close>

lemma set_reaction_job:
  "set (reaction_job now p) = {(max now t, s) | t s. p = Settles t s}"
  by (cases p) auto

lemma set_job_queue:
  "set (job_queue now ps) = {(max now t, s) | t s. Settles t s \<in> set ps}"
  by (auto simp: job_queue_def set_reaction_job)

lemma sorted_job_queue: "sorted (map fst (job_queue now ps))"
  by (simp add: job_queue_def)

lemma length_reaction_jobs: "length (concat (map (reaction_job now) ps)) \<le> length ps"
proof (induction ps)
  case Nil
  then show ?case by simp
next
  case (Cons p ps)
  then show ?case by (cases p) simp_all
qed

lemma length_job_queue: "length (job_queue now ps) \<le> length ps"
  by (simp add: job_queue_def length_reaction_jobs)

lemma length_prom_of: "length (concat (map prom_of xs)) \<le> length xs"
proof (induction xs)
  case Nil
  then show ?case by simp
next
  case (Cons x xs)
  then show ?case by (cases x) simp_all
qed

lemma set_prom_of: "set (concat (map prom_of xs)) = {p. Prom p \<in> set xs}"
proof (induction xs)
  case Nil
  then show ?case by simp
next
  case (Cons x xs)
  then show ?case by (cases x) auto
qed

lemma some_executor_Some:
  "xs \<noteq> [] \<Longrightarrow> some_executor h now (Some xs) = foldr (some_body h now) xs some_init"
  by (simp add: some_executor_def some_loop_foldr)

lemma some_init_fields [simp]:
  "reasons some_init = []" "rejectionCount some_init = 0" "registered some_init = []"
  "returned some_init = Never"
  by (simp_all add: some_init_def)

lemma executor_fields:
  assumes "xs \<noteq> []"
  shows "reasons (some_executor h now (Some xs)) = []"
    and "rejectionCount (some_executor h now (Some xs)) = 0"
    and "registered (some_executor h now (Some xs)) = concat (map prom_of (rev xs))"
    and "returned (some_executor h now (Some xs)) =
           (if \<forall>x\<in>set xs. instanceof_Promise x then Never
            else Settles now (Rejected only_promises_msg))"
  using assms by (simp_all add: some_executor_Some foldr_some_body_returned)

lemma length_some_queue:
  "xs \<noteq> [] \<Longrightarrow>
   length (job_queue now (map (fate h) (registered (some_executor h now (Some xs))))) \<le> length xs"
  using length_job_queue [of now "map (fate h) (concat (map prom_of (rev xs)))"]
    length_prom_of [of "rev xs"]
  by (simp add: executor_fields)

lemma set_some_queue:
  "xs \<noteq> [] \<Longrightarrow>
   set (job_queue now (map (fate h) (registered (some_executor h now (Some xs))))) =
     {(max now t, s) | t s p. Prom p \<in> set xs \<and> fate h p = Settles t s}"
proof -
  assume ne: "xs \<noteq> []"
  have "set (registered (some_executor h now (Some xs))) = {p. Prom p \<in> set xs}"
    using set_prom_of [of "rev xs"] by (simp only: executor_fields(3) [OF ne] set_rev)
  then have "Settles t s \<in> set (map (fate h) (registered (some_executor h now (Some xs))))
      \<longleftrightarrow> (\<exists>p. Prom p \<in> set xs \<and> fate h p = Settles t s)" for t s
    by (auto simp: image_iff)
  then have "set (job_queue now (map (fate h) (registered (some_executor h now (Some xs))))) =
      {(max now t, s) | t s. \<exists>p. Prom p \<in> set xs \<and> fate h p = Settles t s}"
    by (simp only: set_job_queue)
  then show ?thesis by blast
qed

subsection \<open>The history\<close>

text \<open>
  A settlement of the history happens after the time from which the history is read, and
  two promises never settle at one time.
\<close>

lemma settlement_from_later: "settlement_from k h p = Settles t s \<Longrightarrow> k < t"
proof (induction h arbitrary: k)
  case Nil
  then show ?case by simp
next
  case (Cons e h)
  obtain q s0 where e: "e = (q, s0)" by (cases e)
  show ?case
  proof (cases "q = p")
    case True
    with Cons.prems e show ?thesis by simp
  next
    case False
    with Cons.prems e have "settlement_from (Suc k) h p = Settles t s" by simp
    from Cons.IH [OF this] show ?thesis by simp
  qed
qed

lemma settlement_from_same_time:
  "settlement_from k h p = Settles t s \<Longrightarrow> settlement_from k h p' = Settles t s' \<Longrightarrow> p = p'"
proof (induction h arbitrary: k)
  case Nil
  then show ?case by simp
next
  case (Cons e h)
  obtain q s0 where e: "e = (q, s0)" by (cases e)
  show ?case
  proof (cases "q = p")
    case p: True
    show ?thesis
    proof (cases "q = p'")
      case True
      with p show ?thesis by simp
    next
      case False
      with Cons.prems e p have "t = Suc k" "settlement_from (Suc k) h p' = Settles t s'"
        by simp_all
      with settlement_from_later [of "Suc k" h p' t s'] show ?thesis by simp
    qed
  next
    case np: False
    show ?thesis
    proof (cases "q = p'")
      case True
      with Cons.prems e np have "t = Suc k" "settlement_from (Suc k) h p = Settles t s"
        by simp_all
      with settlement_from_later [of "Suc k" h p t s] show ?thesis by simp
    next
      case False
      with Cons.prems e np show ?thesis
        using Cons.IH [of "Suc k"] by simp
    qed
  qed
qed

lemma fate_same_time:
  "fate h p = Settles t s \<Longrightarrow> fate h p' = Settles t s' \<Longrightarrow> p = p'"
  unfolding fate_def by (rule settlement_from_same_time)

lemma fate_positive: "fate h p = Settles t s \<Longrightarrow> 0 < t"
  unfolding fate_def by (drule settlement_from_later) simp

subsection \<open>Jobs of the promises already settled at the call\<close>

text \<open>
  The queue starts with the jobs that have the time of the call, in the order of
  registration: the sort is stable and no job is earlier.
\<close>

lemma sorted_from_now:
  "sorted (map f q) \<Longrightarrow> \<forall>j\<in>set q. (now::nat) \<le> f j \<Longrightarrow>
   q = filter (\<lambda>j. f j = now) q @ filter (\<lambda>j. f j \<noteq> now) q"
proof (induction q)
  case Nil
  then show ?case by simp
next
  case (Cons j q)
  show ?case
  proof (cases "f j = now")
    case True
    with Cons show ?thesis by simp
  next
    case False
    with Cons.prems have "\<forall>k\<in>set q. f k \<noteq> now" by fastforce
    then have "filter (\<lambda>j. f j = now) q = []" "filter (\<lambda>j. f j \<noteq> now) q = q"
      by (simp_all add: filter_empty_conv)
    with False show ?thesis by simp
  qed
qed

lemma job_queue_now_first:
  "job_queue now ps =
     filter (\<lambda>j. fst j = now) (concat (map (reaction_job now) ps))
     @ filter (\<lambda>j. fst j \<noteq> now) (job_queue now ps)"
proof -
  have ge: "\<forall>j\<in>set (job_queue now ps). now \<le> fst j"
    by (auto simp: set_job_queue)
  have "filter (\<lambda>j. fst j = now) (job_queue now ps) =
          filter (\<lambda>j. fst j = now) (concat (map (reaction_job now) ps))"
    unfolding job_queue_def by (rule sort_key_stable)
  with sorted_from_now [OF sorted_job_queue ge] show ?thesis by simp
qed

lemma set_reaction_jobs:
  "set (concat (map (reaction_job now \<circ> fate h) ps)) =
     {(max now t, s) | t s p. p \<in> set ps \<and> fate h p = Settles t s}"
  by (auto simp: set_reaction_job)

section \<open>Promise.some: what the executor and the jobs decide\<close>

text \<open>
  A plain value or a thenable in the array makes the executor call \<^verbatim>\<open>reject\<close> while
  it runs, and every job comes after the executor.
\<close>

lemma some_executor_rejects:
  assumes "\<exists>x\<in>set xs. \<not> instanceof_Promise x"
  shows "Promise_some h now (Some xs) = Settles now (Rejected only_promises_msg)"
proof -
  from assms have ne: "xs \<noteq> []" by auto
  have "returned (some_executor h now (Some xs)) = Settles now (Rejected only_promises_msg)"
    using assms by (simp add: executor_fields(4) [OF ne])
  then show ?thesis
    by (simp add: Promise_some_def Let_def some_jobs_settled)
qed

text \<open>
  With promises only, the returned promise takes the first fulfilment in the job queue:
  no run of rejections before it can reach \<^verbatim>\<open>promises.length\<close>. When no fulfilled
  promise is settled at the call, that is the promise fulfilled first.
\<close>

lemma some_first_pending_success:
  assumes proms: "\<forall>x\<in>set xs. instanceof_Promise x"
    and one: "Prom p0 \<in> set xs" "fate h p0 = Settles t0 (Fulfilled v0)"
    and pending: "\<forall>p t v. Prom p \<in> set xs \<longrightarrow> fate h p = Settles t (Fulfilled v) \<longrightarrow> now < t"
  shows "\<exists>p t v. Prom p \<in> set xs \<and> fate h p = Settles t (Fulfilled v)
           \<and> Promise_some h now (Some xs) = Settles t (Fulfilled v)
           \<and> (\<forall>p' t' v'. Prom p' \<in> set xs \<longrightarrow> fate h p' = Settles t' (Fulfilled v')
                 \<longrightarrow> p' \<noteq> p \<longrightarrow> t < t')"
proof -
  from one have ne: "xs \<noteq> []" by auto
  let ?st = "some_executor h now (Some xs)"
  let ?q = "job_queue now (map (fate h) (registered ?st))"
  have "(max now t0, Fulfilled v0) \<in> set ?q"
    using one by (auto simp: set_some_queue [OF ne])
  then have "\<exists>j\<in>set ?q. \<not> is_rejected (snd j)"
    by force
  then obtain js j ks where q: "?q = js @ j # ks" and j: "\<not> is_rejected (snd j)"
    and js: "\<forall>k\<in>set js. is_rejected (snd k)"
    using split_list_first_prop [of ?q "\<lambda>j. \<not> is_rejected (snd j)"] by auto
  obtain T v where jv: "j = (T, Fulfilled v)"
    using j by (cases j; cases "snd j") auto
  have len: "rejectionCount ?st + length js < length xs"
    using length_some_queue [OF ne, of now h] q by (simp add: executor_fields [OF ne])
  have ret: "returned ?st = Never"
    using proms by (simp add: executor_fields [OF ne])
  have res: "Promise_some h now (Some xs) = Settles T (Fulfilled v)"
    using some_jobs_first_fulfilled [OF js ret len, of T v ks] q jv
    by (simp add: Promise_some_def promises_length_def Let_def)
  have "(T, Fulfilled v) \<in> set ?q"
    using q jv by simp
  then obtain t p where t: "T = max now t" "Prom p \<in> set xs" "fate h p = Settles t (Fulfilled v)"
    by (auto simp: set_some_queue [OF ne])
  from pending t have "now < t" by blast
  with t have T: "T = t" by simp
  have first: "t < t'" if m: "Prom p' \<in> set xs" and f: "fate h p' = Settles t' (Fulfilled v')"
    and d: "p' \<noteq> p" for p' t' v'
  proof -
    from pending m f have n: "now < t'" by blast
    have "(max now t', Fulfilled v') \<in> set ?q"
      using m f by (auto simp: set_some_queue [OF ne])
    then have "(t', Fulfilled v') \<in> set (j # ks)"
      using q js n by auto
    moreover have "sorted (map fst (js @ j # ks))"
      using sorted_job_queue [of now "map (fate h) (registered ?st)"] q by simp
    ultimately have "t \<le> t'"
      using jv T by (auto simp: sorted_append)
    moreover have "t \<noteq> t'"
      using fate_same_time [OF t(3), of p' "Fulfilled v'"] f d by auto
    ultimately show ?thesis by simp
  qed
  show ?thesis
    using res t(2,3) T first
    by (intro exI [of _ p] exI [of _ t] exI [of _ v]) simp
qed

text \<open>
  When a fulfilled promise is already settled at the call, the jobs with the time of the
  call come first, in the order of registration, which is the array read backwards.
\<close>

lemma some_last_settled_success:
  assumes proms: "\<forall>x\<in>set xs. instanceof_Promise x"
    and xs: "xs = pre @ Prom p # post"
    and p: "fate h p = Settles t (Fulfilled v)" "t \<le> now"
    and post: "\<forall>p' t' v'. Prom p' \<in> set post \<longrightarrow> fate h p' = Settles t' (Fulfilled v')
                 \<longrightarrow> now < t'"
  shows "Promise_some h now (Some xs) = Settles now (Fulfilled v)"
proof -
  from xs have ne: "xs \<noteq> []" by simp
  let ?st = "some_executor h now (Some xs)"
  let ?q = "job_queue now (map (fate h) (registered ?st))"
  let ?Upost = "concat (map (reaction_job now \<circ> fate h) (concat (map prom_of (rev post))))"
  let ?Upre = "concat (map (reaction_job now \<circ> fate h) (concat (map prom_of (rev pre))))"
  let ?F = "filter (\<lambda>j. fst j = now) ?Upost"
  have reg: "registered ?st =
      concat (map prom_of (rev post)) @ p # concat (map prom_of (rev pre))"
    using executor_fields(3) [OF ne, of h now] by (simp add: xs)
  have U: "concat (map (reaction_job now \<circ> fate h) (registered ?st)) =
      ?Upost @ (now, Fulfilled v) # ?Upre"
    using p by (simp add: reg max_def)
  have q: "?q = ?F @ (now, Fulfilled v)
      # (filter (\<lambda>j. fst j = now) ?Upre @ filter (\<lambda>j. fst j \<noteq> now) ?q)"
    by (subst job_queue_now_first) (simp add: U)
  have rej: "\<forall>j\<in>set ?F. is_rejected (snd j)"
  proof
    fix j assume j: "j \<in> set ?F"
    then have k: "fst j = now" and "j \<in> set ?Upost" by simp_all
    then have "j \<in> {(max now t, s) | t s p.
        p \<in> set (concat (map prom_of (rev post))) \<and> fate h p = Settles t s}"
      by (simp only: set_reaction_jobs)
    then obtain p' t' s' where m: "p' \<in> set (concat (map prom_of (rev post)))"
      and f: "fate h p' = Settles t' s'" and jj: "j = (max now t', s')"
      by blast
    have "set (concat (map prom_of (rev post))) = {p. Prom p \<in> set post}"
      by (simp only: set_prom_of set_rev)
    with m have mp: "Prom p' \<in> set post" by blast
    show "is_rejected (snd j)"
    proof (cases s')
      case (Fulfilled v')
      with post mp f have "now < t'" by blast
      with jj k show ?thesis by simp
    next
      case (Rejected r)
      with jj show ?thesis by simp
    qed
  qed
  have "length ?q = length (?F @ (now, Fulfilled v)
      # (filter (\<lambda>j. fst j = now) ?Upre @ filter (\<lambda>j. fst j \<noteq> now) ?q))"
    by (rule arg_cong [OF q])
  then have "length ?F < length ?q" by simp
  with length_some_queue [OF ne, of now h]
  have len: "rejectionCount ?st + length ?F < length xs"
    by (simp add: executor_fields [OF ne])
  have ret: "returned ?st = Never"
    using proms by (simp add: executor_fields [OF ne])
  from q obtain ks where "?q = ?F @ (now, Fulfilled v) # ks" ..
  with some_jobs_first_fulfilled [OF rej ret len, of now v ks] show ?thesis
    by (simp add: Promise_some_def promises_length_def Let_def)
qed

text \<open>
  With failing promises only, the job queue is the list of the failures, read backwards
  and sorted by \<open>max now t\<close>.
\<close>

lemma insort_key_map:
  "insort_key f (g x) (map g ys) = map g (insort_key (\<lambda>y. f (g y)) x ys)"
  by (induction ys) simp_all

lemma sort_key_map:
  "sort_key f (map g xs) = map g (sort_key (\<lambda>y. f (g y)) xs)"
  by (induction xs) (simp_all add: insort_key_map)

lemma failure_jobs:
  assumes "\<forall>f\<in>set gs. fate h (who f) = Settles (failed_at f) (Rejected (why f))"
  shows "concat (map (reaction_job now) (map (fate h) (map who gs))) = map (failure_job now) gs"
  using assms by (induction gs) (simp_all add: failure_job_def)

lemma prom_of_failures: "concat (map prom_of (map (Prom \<circ> who) gs)) = map who gs"
  by (induction gs) simp_all

lemma failing_queue:
  assumes fail: "\<forall>f\<in>set fs. fate h (who f) = Settles (failed_at f) (Rejected (why f))"
    and ne: "fs \<noteq> []"
  shows "job_queue now (map (fate h) (registered (some_executor h now (Some (map (Prom \<circ> who) fs))))) =
           map (failure_job now) (sort_key (\<lambda>f. max now (failed_at f)) (rev fs))"
proof -
  from ne have xne: "map (Prom \<circ> who) fs \<noteq> []" by simp
  have reg: "registered (some_executor h now (Some (map (Prom \<circ> who) fs))) = map who (rev fs)"
    using prom_of_failures [of "rev fs"]
    by (simp only: executor_fields(3) [OF xne] rev_map)
  have "\<forall>f\<in>set (rev fs). fate h (who f) = Settles (failed_at f) (Rejected (why f))"
    using fail by simp
  from failure_jobs [OF this, of now]
  have "job_queue now (map (fate h) (map who (rev fs))) =
          sort_key fst (map (failure_job now) (rev fs))"
    by (simp only: job_queue_def)
  also have "\<dots> = map (failure_job now) (sort_key (\<lambda>f. fst (failure_job now f)) (rev fs))"
    by (rule sort_key_map)
  also have "(\<lambda>f. fst (failure_job now f)) = (\<lambda>f. max now (failed_at f))"
    by (rule ext) (simp add: failure_job_def)
  finally show ?thesis by (simp only: reg)
qed

lemma failures_same_time:
  assumes fail: "\<forall>f\<in>set fs. fate h (who f) = Settles (failed_at f) (Rejected (why f))"
    and a: "a \<in> set fs" and b: "b \<in> set fs" and t: "failed_at a = failed_at b"
  shows "a = b"
proof -
  from fail a b have fa: "fate h (who a) = Settles (failed_at a) (Rejected (why a))"
    and fb: "fate h (who b) = Settles (failed_at b) (Rejected (why b))" by simp_all
  from fate_same_time [OF fa, of "who b" "Rejected (why b)"] fb t have w: "who a = who b" by simp
  with fa fb have "why a = why b" by simp
  with w t show ?thesis by (simp add: failure.expand)
qed

text \<open>
  There are at most \<^verbatim>\<open>promises.length\<close> jobs, so \<open>some_run\<close> at that number
  has run them all.
\<close>

lemma Promise_some_run:
  "Promise_some h now promises = returned (some_run h now promises (promises_length promises))"
proof (cases promises)
  case None
  then show ?thesis
    by (simp add: Promise_some_def some_run_def some_executor_def job_queue_def)
next
  case (Some xs)
  show ?thesis
  proof (cases "xs = []")
    case True
    with Some show ?thesis
      by (simp add: Promise_some_def some_run_def some_executor_def job_queue_def)
  next
    case False
    from length_some_queue [OF False, of now h] Some show ?thesis
      by (simp add: Promise_some_def some_run_def promises_length_def Let_def)
  qed
qed

text \<open>The returned promise never settles before the call.\<close>

lemma some_job_time:
  assumes "now \<le> fst j" and "returned (some_job n j st) = Settles t s"
    and "\<And>t s. returned st = Settles t s \<Longrightarrow> now \<le> t"
  shows "now \<le> t"
proof (cases "returned st")
  case Never
  then show ?thesis
    using assms(1,2)
    by (cases j; cases "snd j") (auto simp: rejectLastFailure_def Let_def split: if_splits)
next
  case (Settles t' s')
  with assms(2) some_job_settled [of st t' s' n j] assms(3) [of t' s'] show ?thesis by simp
qed

lemma some_jobs_time:
  assumes "\<forall>j\<in>set js. now \<le> fst j" and "returned (some_jobs n js st) = Settles t s"
    and "\<And>t s. returned st = Settles t s \<Longrightarrow> now \<le> t"
  shows "now \<le> t"
  using assms
proof (induction js arbitrary: st)
  case Nil
  then show ?case by simp
next
  case (Cons j js)
  show ?case
  proof (rule Cons.IH [of "some_job n j st"])
    show "\<forall>j\<in>set js. now \<le> fst j" using Cons.prems(1) by simp
    show "returned (some_jobs n js (some_job n j st)) = Settles t s"
      using Cons.prems(2) by simp
    show "now \<le> t'" if "returned (some_job n j st) = Settles t' s'" for t' s'
      using some_job_time [of now j n st t' s'] that Cons.prems(1,3) by simp
  qed
qed

lemma some_executor_time:
  "returned (some_executor h now promises) = Settles t s \<Longrightarrow> now \<le> t"
proof (cases promises)
  case None
  then show "returned (some_executor h now promises) = Settles t s \<Longrightarrow> now \<le> t"
    by (simp add: some_executor_def)
next
  case (Some xs)
  show "returned (some_executor h now promises) = Settles t s \<Longrightarrow> now \<le> t"
  proof (cases "xs = []")
    case True
    assume "returned (some_executor h now promises) = Settles t s"
    with Some True show ?thesis by (simp add: some_executor_def)
  next
    case False
    assume "returned (some_executor h now promises) = Settles t s"
    with Some executor_fields(4) [OF False, of h now] show ?thesis
      by (simp split: if_splits)
  qed
qed

lemma Promise_some_time:
  assumes "Promise_some h now promises = Settles t s"
  shows "now \<le> t"
proof (rule some_jobs_time)
  show "\<forall>j\<in>set (job_queue now (map (fate h) (registered (some_executor h now promises)))).
          now \<le> fst j"
    by (auto simp: set_job_queue)
  show "returned (some_jobs (promises_length promises)
      (job_queue now (map (fate h) (registered (some_executor h now promises))))
      (some_executor h now promises)) = Settles t s"
    using assms by (simp add: Promise_some_def Let_def)
  show "\<And>t s. returned (some_executor h now promises) = Settles t s \<Longrightarrow> now \<le> t"
    by (rule some_executor_time)
qed

section \<open>Promise.try: the two type tests\<close>

text \<open>
  No operand has the tag \<^verbatim>\<open>"Function"\<close> or \<^verbatim>\<open>"Number"\<close>. So the guard of
  \<^verbatim>\<open>Promise.try\<close> always returns early, and \<^verbatim>\<open>timeoutPromiseFactory\<close> never
  builds a timer: it ends in \<^verbatim>\<open>new Promise()\<close>, which throws, when \<^verbatim>\<open>time.pop()\<close>
  has not thrown before.
\<close>

lemma typeof_not_Function: "typeof x \<noteq> ''Function''"
  by (cases x rule: typeof.cases) simp_all

lemma typeof_not_Number: "typeof x \<noteq> ''Number''"
  by (cases x rule: typeof.cases) simp_all

lemma timeoutPromiseFactory_throws:
  "fst (timeoutPromiseFactory times_length now st) = Throws type_error"
  by (simp add: timeoutPromiseFactory_def typeof_not_Number split: timespec.splits)

lemma attempt_throws:
  "fst (attempt h fn maxAttempts times_length now st) = Throws type_error"
  using timeoutPromiseFactory_throws [of times_length now st]
  by (cases "timeoutPromiseFactory times_length now st") simp

section \<open>The claims\<close>

subsection \<open>Promise.some\<close>

text \<open>
  C8. \<^verbatim>\<open>Promise.some([])\<close> and \<^verbatim>\<open>Promise.some(undefined)\<close> are both fulfilled with the
  empty array, and they are so at the time of the call.
\<close>

theorem some_vacuous_success:
  "Promise_some h now None = Settles now (Fulfilled (JArr []))
   \<and> Promise_some h now (Some []) = Settles now (Fulfilled (JArr []))"
  by (simp add: Promise_some_def some_executor_def some_init_def resolve_def
      promises_length_def job_queue_def)

text \<open>
  C6. When the array holds an element that is not a promise, the promise that
  \<^verbatim>\<open>Promise.some\<close> returns is rejected at the time of the call with the message
  \<^verbatim>\<open>"Only Promises can be used with Promise.some()"\<close>, whatever the other elements are
  and however they settle.
\<close>

theorem some_rejects_non_promise:
  assumes "\<exists>x\<in>set xs. \<not> instanceof_Promise x"
  shows "Promise_some h now (Some xs) = Settles now (Rejected only_promises_msg)"
  using assms by (rule some_executor_rejects)

text \<open>
  The promise at index 1 is already fulfilled and its job is queued before the loop
  reaches the number at index 0; the rejection still wins.
\<close>

theorem some_rejects_non_promise_witness:
  "Promise_some [(0, Fulfilled (JStr ''ok''))] 1 (Some [Val (JNum (Finite 7)), Prom 0])
     = Settles 1 (Rejected (JStr ''Only Promises can be used with Promise.some()''))"
proof -
  have "\<exists>x\<in>set [Val (JNum (Finite 7)), Prom 0]. \<not> instanceof_Promise x"
    by simp
  from some_rejects_non_promise [OF this, of "[(0, Fulfilled (JStr ''ok''))]" 1] show ?thesis
    by (simp add: only_promises_msg_def)
qed

text \<open>
  C1, as amended. Take an array of promises of which at least one is fulfilled at some
  time. Then \<^verbatim>\<open>Promise.some\<close> is fulfilled, and with which value is told by two cases
  that cover every such array.

  If none of the promises that are fulfilled is already settled at the call, the value
  and the time are those of the promise that is fulfilled first: its time is strictly
  before that of every other fulfilled promise of the array, whatever the positions.

  If some of them are already settled at the call, the value is that of the last element
  of the array that is already fulfilled, and the time is that of the call. When only
  one promise is fulfilled by the time of the call, that is again the one fulfilled first.
\<close>

theorem some_first_success_wins:
  assumes proms: "\<forall>x\<in>set xs. instanceof_Promise x"
    and one: "Prom p0 \<in> set xs" "fate h p0 = Settles t0 (Fulfilled v0)"
  shows "((\<forall>p t v. Prom p \<in> set xs \<longrightarrow> fate h p = Settles t (Fulfilled v) \<longrightarrow> now < t) \<longrightarrow>
            (\<exists>p t v. Prom p \<in> set xs \<and> fate h p = Settles t (Fulfilled v)
               \<and> Promise_some h now (Some xs) = Settles t (Fulfilled v)
               \<and> (\<forall>p' t' v'. Prom p' \<in> set xs \<longrightarrow> fate h p' = Settles t' (Fulfilled v')
                     \<longrightarrow> p' \<noteq> p \<longrightarrow> t < t')))
         \<and> (\<forall>pre p post t v.
               xs = pre @ Prom p # post \<longrightarrow> fate h p = Settles t (Fulfilled v) \<longrightarrow> t \<le> now \<longrightarrow>
               (\<forall>p' t' v'. Prom p' \<in> set post \<longrightarrow> fate h p' = Settles t' (Fulfilled v')
                   \<longrightarrow> now < t') \<longrightarrow>
               Promise_some h now (Some xs) = Settles now (Fulfilled v))"
proof (intro conjI impI allI)
  assume "\<forall>p t v. Prom p \<in> set xs \<longrightarrow> fate h p = Settles t (Fulfilled v) \<longrightarrow> now < t"
  then show "\<exists>p t v. Prom p \<in> set xs \<and> fate h p = Settles t (Fulfilled v)
               \<and> Promise_some h now (Some xs) = Settles t (Fulfilled v)
               \<and> (\<forall>p' t' v'. Prom p' \<in> set xs \<longrightarrow> fate h p' = Settles t' (Fulfilled v')
                     \<longrightarrow> p' \<noteq> p \<longrightarrow> t < t')"
    by (rule some_first_pending_success [OF proms one])
next
  fix pre p post t v
  assume "xs = pre @ Prom p # post" "fate h p = Settles t (Fulfilled v)" "t \<le> now"
    "\<forall>p' t' v'. Prom p' \<in> set post \<longrightarrow> fate h p' = Settles t' (Fulfilled v') \<longrightarrow> now < t'"
  then show "Promise_some h now (Some xs) = Settles now (Fulfilled v)"
    by (rule some_last_settled_success [OF proms])
qed

text \<open>The lives of three promises A, B and C, numbered 0, 1 and 2, in one history.\<close>

lemma example_fates:
  "fate [(1, Rejected (JStr ''B'')), (2, Fulfilled (JStr ''C'')), (0, Fulfilled (JStr ''A''))] 0
     = Settles 3 (Fulfilled (JStr ''A''))"
  "fate [(1, Rejected (JStr ''B'')), (2, Fulfilled (JStr ''C'')), (0, Fulfilled (JStr ''A''))] 1
     = Settles 1 (Rejected (JStr ''B''))"
  "fate [(1, Rejected (JStr ''B'')), (2, Fulfilled (JStr ''C'')), (0, Fulfilled (JStr ''A''))] 2
     = Settles 2 (Fulfilled (JStr ''C''))"
  by (simp_all add: fate_def)

text \<open>
  B is rejected first, then C is fulfilled, then A. Called before all three, with the
  array \<^verbatim>\<open>[A, B, C]\<close>, the first case leaves one answer: C, at time 2. Called when B
  and C are settled and A is not, with the array \<^verbatim>\<open>[A, C, B]\<close>, the second case gives
  C again, at the time of the call: C is the only success by then.
\<close>

theorem some_first_success_wins_witness:
  "Promise_some [(1, Rejected (JStr ''B'')), (2, Fulfilled (JStr ''C'')), (0, Fulfilled (JStr ''A''))]
        0 (Some [Prom 0, Prom 1, Prom 2])
     = Settles 2 (Fulfilled (JStr ''C''))
   \<and> Promise_some [(1, Rejected (JStr ''B'')), (2, Fulfilled (JStr ''C'')), (0, Fulfilled (JStr ''A''))]
        2 (Some [Prom 0, Prom 2, Prom 1])
     = Settles 2 (Fulfilled (JStr ''C''))"
proof -
  let ?h = "[(1, Rejected (JStr ''B'')), (2, Fulfilled (JStr ''C'')), (0, Fulfilled (JStr ''A''))]"
  let ?xs = "[Prom 0, Prom 1, Prom 2]"
  let ?ys = "[Prom 0, Prom 2, Prom 1]"
  note f = example_fates
  have h1: "\<forall>x\<in>set ?xs. instanceof_Promise x" by simp
  have h2: "Prom 2 \<in> set ?xs" by simp
  have h3: "\<forall>p t v. Prom p \<in> set ?xs \<longrightarrow> fate ?h p = Settles t (Fulfilled v) \<longrightarrow> 0 < t"
    using fate_positive by blast
  from some_first_success_wins [OF h1 h2 f(3), of 0] h3
  obtain p t v where m: "Prom p \<in> set ?xs" and fp: "fate ?h p = Settles t (Fulfilled v)"
    and r: "Promise_some ?h 0 (Some ?xs) = Settles t (Fulfilled v)"
    and first: "\<forall>p' t' v'. Prom p' \<in> set ?xs \<longrightarrow> fate ?h p' = Settles t' (Fulfilled v')
                   \<longrightarrow> p' \<noteq> p \<longrightarrow> t < t'"
    by blast
  have "p \<noteq> 0"
  proof
    assume p: "p = 0"
    then have "(2::nat) \<noteq> p" by simp
    with first h2 f(3) have "t < 2" by blast
    moreover from fp f(1) p have "t = 3" by simp
    ultimately show False by simp
  qed
  moreover have "p \<noteq> 1"
    using fp f(2) by auto
  moreover from m have "p = 0 \<or> p = 1 \<or> p = 2" by auto
  ultimately have "p = 2" by blast
  with fp f(3) r have a: "Promise_some ?h 0 (Some ?xs) = Settles 2 (Fulfilled (JStr ''C''))"
    by simp
  have k1: "\<forall>x\<in>set ?ys. instanceof_Promise x" by simp
  have k2: "Prom 2 \<in> set ?ys" by simp
  have k3: "?ys = [Prom 0] @ Prom 2 # [Prom 1]" by simp
  have k4: "\<forall>p' t' v'. Prom p' \<in> set [Prom 1] \<longrightarrow> fate ?h p' = Settles t' (Fulfilled v')
              \<longrightarrow> 2 < t'"
    using f(2) by auto
  have k5: "(2::nat) \<le> 2" by simp
  from some_first_success_wins [OF k1 k2 f(3), of 2] k3 f(3) k4 k5
  have b: "Promise_some ?h 2 (Some ?ys) = Settles 2 (Fulfilled (JStr ''C''))"
    by blast
  from a b show ?thesis by (rule conjI)
qed

text \<open>
  C1 as stated fails when more than one success is already settled at the call. A is
  fulfilled first and C second, and \<^verbatim>\<open>Promise.some\<close> is called after both. The loop
  registers from the last index down, so the job of the last element runs first:
  \<^verbatim>\<open>[A, C]\<close> gives C, the later success, and \<^verbatim>\<open>[C, A]\<close> gives A.
\<close>

theorem some_first_success_counterexample:
  "Promise_some [(0, Fulfilled (JStr ''A'')), (1, Fulfilled (JStr ''C''))] 2
       (Some [Prom 0, Prom 1])
     = Settles 2 (Fulfilled (JStr ''C''))
   \<and> Promise_some [(0, Fulfilled (JStr ''A'')), (1, Fulfilled (JStr ''C''))] 2
       (Some [Prom 1, Prom 0])
     = Settles 2 (Fulfilled (JStr ''A''))"
  by code_simp

text \<open>
  C2, as amended. Take a non-empty array of promises that all fail; each failure names
  its promise, its time and its reason. Then \<^verbatim>\<open>Promise.some\<close> is rejected with the
  array of all the reasons: first those of the promises that have already failed at the
  call, from the last position of the input to the first, then those of the others in
  the order in which they fail (\<open>late\<close>: of two different failures the earlier
  stands first). It is rejected at the time of the last failure, or at the call when all
  have failed before. The whole payload is in the order of settlement exactly when the
  failures before the call, read from the last position to the first, are. After \<open>k\<close>
  jobs \<^verbatim>\<open>rejectionCount\<close> is \<open>k\<close>, and the returned promise is still pending as
  long as \<open>k\<close> is below the number of operations.
\<close>

theorem some_all_fail:
  assumes ne: "fs \<noteq> []"
    and fail: "\<forall>f\<in>set fs. fate h (who f) = Settles (failed_at f) (Rejected (why f))"
  shows "\<exists>late.
      mset late = mset (filter (\<lambda>f. now < failed_at f) fs)
    \<and> sorted_wrt (\<lambda>a b. failed_at a < failed_at b \<or> a = b) late
    \<and> Promise_some h now (Some (map (Prom \<circ> who) fs)) =
        Settles (max now (failed_at (last (filter (\<lambda>f. failed_at f \<le> now) (rev fs) @ late))))
          (Rejected (JArr (map why (filter (\<lambda>f. failed_at f \<le> now) (rev fs) @ late))))
    \<and> (sorted (map failed_at (filter (\<lambda>f. failed_at f \<le> now) (rev fs) @ late))
         = sorted (map failed_at (filter (\<lambda>f. failed_at f \<le> now) (rev fs))))
    \<and> (\<forall>k<length fs.
          returned (some_run h now (Some (map (Prom \<circ> who) fs)) k) = Never
          \<and> rejectionCount (some_run h now (Some (map (Prom \<circ> who) fs)) k) = k)
    \<and> rejectionCount (some_run h now (Some (map (Prom \<circ> who) fs)) (length fs)) = length fs"
proof -
  let ?xs = "map (Prom \<circ> who) fs"
  let ?st = "some_executor h now (Some ?xs)"
  let ?key = "\<lambda>f. max now (failed_at f)"
  let ?Q = "sort_key ?key (rev fs)"
  let ?js = "map (failure_job now) ?Q"
  let ?early = "filter (\<lambda>f. failed_at f \<le> now) (rev fs)"
  let ?late = "filter (\<lambda>f. ?key f \<noteq> now) ?Q"
  from ne have xne: "?xs \<noteq> []" by simp
  have proms: "\<forall>x\<in>set ?xs. instanceof_Promise x" by auto
  have st: "reasons ?st = []" "rejectionCount ?st = 0" "returned ?st = Never"
    using proms by (simp_all only: executor_fields [OF xne] if_P)
  have queue: "job_queue now (map (fate h) (registered ?st)) = ?js"
    by (rule failing_queue [OF fail ne])
  have key_now: "(?key f = now) = (failed_at f \<le> now)" for f
    by (simp add: max_def)
  have "?Q = filter (\<lambda>f. ?key f = now) ?Q @ ?late"
    by (rule sorted_from_now) simp_all
  moreover have "filter (\<lambda>f. ?key f = now) ?Q = filter (\<lambda>f. ?key f = now) (rev fs)"
    by (rule sort_key_stable)
  ultimately have Q: "?Q = ?early @ ?late"
    by (simp only: key_now)
  have late_set: "set ?late \<subseteq> set fs" by auto
  have late_after: "\<forall>f\<in>set ?late. now < failed_at f"
    by (auto simp: max_def split: if_splits)
  have m: "mset ?late = mset (filter (\<lambda>f. now < failed_at f) fs)"
  proof -
    have "(?key f \<noteq> now) = (now < failed_at f)" for f
      by (auto simp: max_def)
    then show ?thesis by (simp add: mset_filter)
  qed
  have "sorted (map ?key ?late)"
    by (rule sorted_filter) simp
  then have "sorted_wrt (\<lambda>a b. ?key a \<le> ?key b) ?late"
    by (simp only: sorted_map)
  then have strict: "sorted_wrt (\<lambda>a b. failed_at a < failed_at b \<or> a = b) ?late"
  proof (rule sorted_wrt_mono_rel [rotated])
    fix a b assume a: "a \<in> set ?late" and b: "b \<in> set ?late" and le: "?key a \<le> ?key b"
    from a b late_after have "now < failed_at a" "now < failed_at b" by blast+
    with le have "failed_at a \<le> failed_at b" by simp
    moreover have "a = b" if "failed_at a = failed_at b"
      using failures_same_time [OF fail _ _ that] a b late_set by blast
    ultimately show "failed_at a < failed_at b \<or> a = b" by fastforce
  qed
  have late_sorted: "sorted (map failed_at ?late)"
    using strict by (simp only: sorted_map) (rule sorted_wrt_mono_rel [rotated], assumption, auto)
  have cross: "\<forall>a\<in>set ?early. \<forall>b\<in>set ?late. failed_at a \<le> failed_at b"
  proof (intro ballI)
    fix a b assume "a \<in> set ?early" and b: "b \<in> set ?late"
    then have "failed_at a \<le> now" by simp
    moreover from late_after b have "now < failed_at b" by blast
    ultimately show "failed_at a \<le> failed_at b" by simp
  qed
  have order: "sorted (map failed_at (?early @ ?late)) = sorted (map failed_at ?early)"
    unfolding sorted_map sorted_wrt_append
    using late_sorted [unfolded sorted_map] cross by blast
  have rej: "\<forall>j\<in>set ?js. is_rejected (snd j)" by (auto simp: failure_job_def)
  have len: "length ?js = length fs" by simp
  have pay: "map (payload \<circ> snd) ?js = map why ?Q"
  proof -
    have "(payload \<circ> snd) \<circ> failure_job now = why" by (rule ext) (simp add: failure_job_def)
    then show ?thesis by (simp only: map_map)
  qed
  have qne: "?Q \<noteq> []" using ne by (metis length_0_conv length_rev length_sort)
  have lastq: "fst (last ?js) = max now (failed_at (last ?Q))"
    using qne by (simp add: last_map failure_job_def)
  have l: "rejectionCount ?st + length ?js = length fs" using st len by simp
  have jne: "?js \<noteq> []" using qne by simp
  note fin = some_jobs_last_rejection [OF rej st(3) jne l]
  have final: "Promise_some h now (Some ?xs) =
      Settles (max now (failed_at (last ?Q))) (Rejected (JArr (map why ?Q)))"
    using fin st(1) pay lastq
    by (simp add: Promise_some_def promises_length_def Let_def queue del: sort_key_simps)
  have final_count: "rejectionCount (some_run h now (Some ?xs) (length fs)) = length fs"
    using fin len
    by (simp add: some_run_def promises_length_def Let_def queue del: sort_key_simps)
  have prefix: "returned (some_run h now (Some ?xs) k) = Never
      \<and> rejectionCount (some_run h now (Some ?xs) k) = k" if "k < length fs" for k
  proof -
    have a: "\<forall>j\<in>set (take k ?js). is_rejected (snd j)"
      using rej by (meson in_set_takeD)
    have b: "rejectionCount ?st + length (take k ?js) < length fs"
      using that st len by simp
    have "length (take k ?js) = k" using that len by simp
    with some_jobs_rejections [OF a st(3) b] st(2) show ?thesis
      by (simp add: some_run_def promises_length_def Let_def queue del: sort_key_simps)
  qed
  from final Q have final': "Promise_some h now (Some ?xs) =
      Settles (max now (failed_at (last (?early @ ?late))))
        (Rejected (JArr (map why (?early @ ?late))))"
    by simp
  from prefix have prefix': "\<forall>k<length fs.
      returned (some_run h now (Some ?xs) k) = Never
      \<and> rejectionCount (some_run h now (Some ?xs) k) = k"
    by blast
  show ?thesis
    by (rule exI [of _ ?late]) (intro conjI m strict final' order prefix' final_count)
qed

text \<open>
  x fails first, then y, then z; the call comes after the failure of x, with the array
  \<^verbatim>\<open>[z, x, y]\<close>.
\<close>

theorem some_all_fail_witness:
  "\<exists>late.
      mset late = mset (filter (\<lambda>f. 1 < failed_at f)
        [Failure 2 3 (JStr ''z''), Failure 0 1 (JStr ''x''), Failure 1 2 (JStr ''y'')])
    \<and> sorted_wrt (\<lambda>a b. failed_at a < failed_at b \<or> a = b) late
    \<and> Promise_some [(0, Rejected (JStr ''x'')), (1, Rejected (JStr ''y'')), (2, Rejected (JStr ''z''))] 1
         (Some (map (Prom \<circ> who)
           [Failure 2 3 (JStr ''z''), Failure 0 1 (JStr ''x''), Failure 1 2 (JStr ''y'')])) =
        Settles (max 1 (failed_at (last (filter (\<lambda>f. failed_at f \<le> 1)
            (rev [Failure 2 3 (JStr ''z''), Failure 0 1 (JStr ''x''), Failure 1 2 (JStr ''y'')]) @ late))))
          (Rejected (JArr (map why (filter (\<lambda>f. failed_at f \<le> 1)
            (rev [Failure 2 3 (JStr ''z''), Failure 0 1 (JStr ''x''), Failure 1 2 (JStr ''y'')]) @ late))))"
proof -
  let ?h = "[(0, Rejected (JStr ''x'')), (1, Rejected (JStr ''y'')), (2, Rejected (JStr ''z''))]"
  let ?fs = "[Failure 2 3 (JStr ''z''), Failure 0 1 (JStr ''x''), Failure 1 2 (JStr ''y'')]"
  have ne: "?fs \<noteq> []" by simp
  have fail: "\<forall>f\<in>set ?fs. fate ?h (who f) = Settles (failed_at f) (Rejected (why f))"
    by (simp add: fate_def)
  from some_all_fail [OF ne fail, of 1] show ?thesis by blast
qed

text \<open>The same input, evaluated: one failure before the call, and the payload is in
  the order of settlement.\<close>

lemma some_all_fail_example:
  "Promise_some [(0, Rejected (JStr ''x'')), (1, Rejected (JStr ''y'')), (2, Rejected (JStr ''z''))] 1
     (Some [Prom 2, Prom 0, Prom 1])
     = Settles 3 (Rejected (JArr [JStr ''x'', JStr ''y'', JStr ''z'']))"
  by code_simp

text \<open>
  C2 as stated fails when more than one operation has failed before the call: x fails
  first and y second, \<^verbatim>\<open>Promise.some([x, y])\<close> is called after both, and the reasons
  arrive as y, x: the reverse of the input order, not the order of settlement.
\<close>

theorem some_all_fail_counterexample:
  "Promise_some [(0, Rejected (JStr ''x'')), (1, Rejected (JStr ''y''))] 2
     (Some [Prom 0, Prom 1])
     = Settles 2 (Rejected (JArr [JStr ''y'', JStr ''x'']))"
  by code_simp

subsection \<open>Promise.none\<close>

text \<open>
  C5. For every input, \<^verbatim>\<open>Promise.none\<close> is fulfilled with \<open>x\<close> at time \<open>t\<close>
  exactly when \<^verbatim>\<open>Promise.some\<close> is rejected with \<open>x\<close> at \<open>t\<close>, it is rejected
  with \<open>x\<close> at \<open>t\<close> exactly when \<^verbatim>\<open>Promise.some\<close> is fulfilled with \<open>x\<close> at
  \<open>t\<close>, and it stays pending exactly when \<^verbatim>\<open>Promise.some\<close> does.
\<close>

theorem none_negates_some:
  "(Promise_none h now promises = Settles t (Fulfilled x))
     = (Promise_some h now promises = Settles t (Rejected x))
   \<and> (Promise_none h now promises = Settles t (Rejected x))
     = (Promise_some h now promises = Settles t (Fulfilled x))
   \<and> (Promise_none h now promises = Never) = (Promise_some h now promises = Never)"
proof (cases "Promise_some h now promises")
  case Never
  then show ?thesis by (simp add: Promise_none_def)
next
  case (Settles t' s)
  then have "max now t' = t'"
    using Promise_some_time [of h now promises t' s] by simp
  with Settles show ?thesis
    by (cases s) (auto simp: Promise_none_def)
qed

text \<open>
  C10. When the array holds an element that is not a promise, \<^verbatim>\<open>Promise.none\<close> is
  fulfilled, and its value is the message with which \<^verbatim>\<open>Promise.some\<close> rejects such
  an array. The outcome where every operation failed is a fulfilment too (see
  \<open>none_all_failed_example\<close>), so the branch alone does not tell the two apart.
\<close>

theorem none_fulfilled_with_validation_message:
  assumes "\<exists>x\<in>set xs. \<not> instanceof_Promise x"
  shows "Promise_none h now (Some xs) = Settles now (Fulfilled only_promises_msg)"
  using some_executor_rejects [OF assms, of h now] by (simp add: Promise_none_def)

theorem none_fulfilled_with_validation_message_witness:
  "Promise_none [(0, Fulfilled (JStr ''ok''))] 0 (Some [Prom 0, Val JNull])
     = Settles 0 (Fulfilled (JStr ''Only Promises can be used with Promise.some()''))"
proof -
  have "\<exists>x\<in>set [Prom 0, Val JNull]. \<not> instanceof_Promise x"
    by simp
  from none_fulfilled_with_validation_message [OF this, of "[(0, Fulfilled (JStr ''ok''))]" 0]
  show ?thesis
    by (simp add: only_promises_msg_def)
qed

lemma none_all_failed_example:
  "Promise_none [(0, Rejected (JStr ''x''))] 0 (Some [Prom 0])
     = Settles 1 (Fulfilled (JArr [JStr ''x'']))"
  by code_simp

subsection \<open>Promise.prototype.always\<close>




subsection \<open>Promise.try\<close>

text \<open>
  C9, as amended. For every argument \<open>fn\<close> the guard \<^verbatim>\<open>typeof fn !== "Function"\<close>
  holds, and \<^verbatim>\<open>Promise.try\<close> returns \<^verbatim>\<open>Promise.resolve(fn)\<close> with the closure state
  as it was set up: no attempt made, no reason recorded, \<^verbatim>\<open>time\<close> not popped. For a
  plain value, a function without a \<^verbatim>\<open>then\<close> among them, that is a promise already
  fulfilled with \<open>fn\<close>; for a promise it is that promise itself; for any other object
  or function with a callable \<^verbatim>\<open>then\<close> it is a promise that follows it, which may
  stay pending or be rejected. The embedding of \<^verbatim>\<open>Promise.try\<close> takes no function
  environment, since the source never calls \<open>fn\<close>.
\<close>

theorem try_returns_early:
  "typeof fn \<noteq> ''Function''
   \<and> Promise_try h now fn time0 attempts =
       (Returns (Promise_resolve h now fn),
        \<lparr>attemptNum = 0, time = time0, timeToWait = None, try_reasons = []\<rparr>)
   \<and> Promise_resolve h now (Val v) = Settles now (Fulfilled v)
   \<and> Promise_resolve h now (Prom p) = fate h p
   \<and> Promise_resolve h now (Thenable c l) =
       (case l of Never \<Rightarrow> Never | Settles t s \<Rightarrow> Settles (max now t) s)"
  by (cases l) (simp_all add: Promise_try_def typeof_not_Function)

text \<open>
  C9 as stated fails when \<open>fn\<close> is a promise: a rejected promise comes back as it
  is, rejected.
\<close>

theorem try_promise_argument_counterexample:
  "fst (Promise_try [(0, Rejected (JStr ''e''))] 1 (Prom 0) NoTime None)
     = Returns (Settles 1 (Rejected (JStr ''e'')))"
  by (simp add: Promise_try_def typeof_not_Function fate_def)

text \<open>
  It fails for thenables too: a function whose \<^verbatim>\<open>then\<close> never settles gives a promise
  that stays pending, and an object whose \<^verbatim>\<open>then\<close> rejects gives a rejected one.
\<close>

lemma try_thenable_argument_example:
  "fst (Promise_try [] 0 (Thenable (Some 0) Never) NoTime None) = Returns Never
   \<and> fst (Promise_try [] 0 (Thenable None (Settles 4 (Rejected (JStr ''e'')))) NoTime None)
       = Returns (Settles 4 (Rejected (JStr ''e'')))"
  by (simp add: Promise_try_def typeof_not_Function)

text \<open>
  C3. The claim asks for three calls of the factory and a rejection with the three
  reasons when \<^verbatim>\<open>attempts\<close> is 2. The code returns at the guard: whatever the function
  \<open>f\<close> does, the result is a promise already fulfilled with the function itself.
\<close>

theorem try_failing_factory_is_not_retried:
  "Promise_try h now (Val (JFun f)) time0 (Some 2) =
     (Returns (Settles now (Fulfilled (JFun f))),
      \<lparr>attemptNum = 0, time = time0, timeToWait = None, try_reasons = []\<rparr>)"
  by (simp add: Promise_try_def typeof_not_Function)

text \<open>
  C4. The claim asks for two attempts that each end by a timeout of 100 when
  \<^verbatim>\<open>attempts\<close> is 1. The code returns at the guard, with no timer set; and
  \<^verbatim>\<open>attempt\<close>, were it reached with this input, would throw.
\<close>

theorem try_slow_factory_is_not_timed_out:
  "Promise_try h now (Val (JFun f)) (OneTime (Finite 100)) (Some 1) =
     (Returns (Settles now (Fulfilled (JFun f))),
      \<lparr>attemptNum = 0, time = OneTime (Finite 100), timeToWait = None, try_reasons = []\<rparr>)
   \<and> fst (attempt h (Val (JFun f)) 1 1 now
        \<lparr>attemptNum = 0, time = OneTime (Finite 100), timeToWait = None, try_reasons = []\<rparr>)
       = Throws type_error"
  using attempt_throws by (simp add: Promise_try_def typeof_not_Function)

end
